theory Spec2Isabelle
  imports Main
begin

section \<open>The button manager of the Inky Impression display\<close>

text \<open>
  A shallow embedding of \<^verbatim>\<open>src/buttons/button_manager.py\<close> (class
  \<^verbatim>\<open>ButtonManager\<close>) and of the status route of
  \<^verbatim>\<open>src/buttons/buttons_blueprint.py\<close>.

  What lies outside the class is an explicit input of the model:
  \<^item> the gpiod library (chip lookup, line offsets, line request, edge-event reads,
    release) is given by records of outcomes, each outcome a value or an exception;
  \<^item> a registered callback is a value compared with equality, as \<^verbatim>\<open>in\<close> and
    \<^verbatim>\<open>list.remove\<close> compare callables with \<^verbatim>\<open>==\<close>; what
    it does when it is called, return or raise an \<^verbatim>\<open>Exception\<close>, is given by a
    function of the callback and the label. Callbacks do not touch the manager;
  \<^item> the logger and the callback invocations are recorded, in order, in the field
    \<open>trace\<close> kept with the manager's attributes;
  \<^item> the two execution contexts are interleaved at the checks of the running flag: the
    actions of the primary context that take effect before the poll loop reaches a check
    are listed with that check.

  The lock, the thread object and the logger are taken not to fail.
\<close>

subsection \<open>Exceptions and the Python built-ins the class uses\<close>

datatype exn = ValueError | KeyError | IndexError | RuntimeError | TypeError | OtherError

text \<open>\<^verbatim>\<open>xs.index(x)\<close>: the first position of \<open>x\<close>, or ValueError.\<close>

fun list_index :: "'a list \<Rightarrow> 'a \<Rightarrow> exn + nat" where
  "list_index [] x = Inl ValueError"
| "list_index (y # ys) x =
     (if y = x then Inr 0
      else (case list_index ys x of Inl e \<Rightarrow> Inl e | Inr i \<Rightarrow> Inr (Suc i)))"

text \<open>\<^verbatim>\<open>xs[i]\<close> for an index that is not negative: IndexError out of range.\<close>

definition list_getitem :: "'a list \<Rightarrow> nat \<Rightarrow> exn + 'a" where
  "list_getitem xs i = (if i < length xs then Inr (xs ! i) else Inl IndexError)"

text \<open>\<^verbatim>\<open>xs.remove(x)\<close>: drops the first element equal to \<open>x\<close>, or ValueError.\<close>

fun list_remove :: "'a list \<Rightarrow> 'a \<Rightarrow> exn + 'a list" where
  "list_remove [] x = Inl ValueError"
| "list_remove (y # ys) x =
     (if y = x then Inr ys
      else (case list_remove ys x of Inl e \<Rightarrow> Inl e | Inr zs \<Rightarrow> Inr (y # zs)))"

text \<open>\<^verbatim>\<open>d[k]\<close>: KeyError for a missing key.\<close>

definition dict_getitem :: "('k \<rightharpoonup> 'v) \<Rightarrow> 'k \<Rightarrow> exn + 'v" where
  "dict_getitem d k = (case d k of None \<Rightarrow> Inl KeyError | Some v \<Rightarrow> Inr v)"

text \<open>A list comprehension over a call that may raise: the first exception ends it.\<close>

fun comprehension :: "('a \<Rightarrow> exn + 'b) \<Rightarrow> 'a list \<Rightarrow> exn + 'b list" where
  "comprehension f [] = Inr []"
| "comprehension f (x # xs) =
     (case f x of
        Inl e \<Rightarrow> Inl e
      | Inr y \<Rightarrow> (case comprehension f xs of Inl e \<Rightarrow> Inl e | Inr ys \<Rightarrow> Inr (y # ys)))"

subsection \<open>The gpiod library\<close>

datatype direction = INPUT
datatype bias = PULL_UP
datatype edge = FALLING

record line_settings =
  direction :: direction
  bias :: bias
  edge_detection :: edge

text \<open>
  A line request (the hardware session). \<^verbatim>\<open>release()\<close> returns or raises;
  \<^verbatim>\<open>hasattr(request, "wait_edge_events")\<close> depends on the bindings' version.
\<close>

record request =
  release_raises :: bool
  has_wait_edge_events :: bool

definition release :: "request \<Rightarrow> exn + unit" where
  "release r = (if release_raises r then Inl OtherError else Inr ())"

record chip =
  line_offset_from_id :: "int \<Rightarrow> exn + int"
  request_lines :: "string \<Rightarrow> (int \<rightharpoonup> line_settings) \<Rightarrow> exn + request"

record platform =
  GPIOD_AVAILABLE :: bool
  find_chip_by_platform :: "exn + chip"

record event =
  line_offset :: int

subsection \<open>Callbacks, log records and the manager\<close>

type_synonym callback = nat

datatype call_result = Returns | Raises

type_synonym behaviour = "callback \<Rightarrow> string \<Rightarrow> call_result"

datatype obs =
    Info_registered string
  | Info_unregistered string
  | Warning_disabled
  | Warning_already_running
  | Info_started
  | Error_start_failed
  | Info_stopped
  | Info_gpio_initialized
  | Error_releasing_gpio
  | Error_monitoring_thread
  | Info_button_press int string
  | Error_calling_handler string
  | Error_handling_event
  | Called callback string

datatype thread = Daemon_thread

record button_manager =
  enabled :: bool
  thread :: "thread option"
  running :: bool
  handlers :: "string \<rightharpoonup> callback list"
  request :: "request option"
  offsets :: "int list option"
  trace :: "obs list"

definition BUTTONS :: "int list" where
  "BUTTONS = [5, 6, 16, 24]"

definition LABELS :: "string list" where
  "LABELS = [''A'', ''B'', ''C'', ''D'']"

definition logged :: "obs \<Rightarrow> button_manager \<Rightarrow> button_manager" where
  "logged x m = m\<lparr>trace := trace m @ [x]\<rparr>"

text \<open>\<^verbatim>\<open>__init__\<close>; the first argument is the module's \<^verbatim>\<open>GPIOD_AVAILABLE\<close>.\<close>

definition init :: "bool \<Rightarrow> bool \<Rightarrow> button_manager" where
  "init gpiod_available enabled_arg =
     \<lparr>enabled = (enabled_arg \<and> gpiod_available),
      thread = None,
      running = False,
      handlers = map_of (map (\<lambda>label. (label, [])) LABELS),
      request = None,
      offsets = None,
      trace = []\<rparr>"

subsection \<open>Registration\<close>

text \<open>
  The operations that can raise return the exception, if any, with the state the manager
  is left in.
\<close>

definition register_handler ::
  "button_manager \<Rightarrow> string \<Rightarrow> callback \<Rightarrow> exn option \<times> button_manager" where
  "register_handler m button cb =
     (if button \<notin> set LABELS then (Some ValueError, m)
      else (case dict_getitem (handlers m) button of
              Inl e \<Rightarrow> (Some e, m)
            | Inr hs \<Rightarrow>
                (None, logged (Info_registered button)
                         (m\<lparr>handlers := (handlers m)(button \<mapsto> hs @ [cb])\<rparr>))))"

definition unregister_handler ::
  "button_manager \<Rightarrow> string \<Rightarrow> callback \<Rightarrow> exn option \<times> button_manager" where
  "unregister_handler m button cb =
     (if handlers m button \<noteq> None \<and>
         (case handlers m button of None \<Rightarrow> False | Some hs \<Rightarrow> cb \<in> set hs)
      then (case dict_getitem (handlers m) button of
              Inl e \<Rightarrow> (Some e, m)
            | Inr hs \<Rightarrow>
                (case list_remove hs cb of
                   Inl e \<Rightarrow> (Some e, m)
                 | Inr hs' \<Rightarrow>
                     (None, logged (Info_unregistered button)
                              (m\<lparr>handlers := (handlers m)(button \<mapsto> hs')\<rparr>))))
      else (None, m))"

subsection \<open>Acquiring and releasing the hardware\<close>

definition input_settings :: line_settings where
  "input_settings = \<lparr>direction = INPUT, bias = PULL_UP, edge_detection = FALLING\<rparr>"

text \<open>\<^verbatim>\<open>dict.fromkeys(keys, v)\<close>.\<close>

definition fromkeys :: "'k list \<Rightarrow> 'v \<Rightarrow> ('k \<rightharpoonup> 'v)" where
  "fromkeys ks v = map_of (map (\<lambda>k. (k, v)) ks)"

definition initialize_gpio :: "platform \<Rightarrow> button_manager \<Rightarrow> exn option \<times> button_manager" where
  "initialize_gpio pf m =
     (if \<not> GPIOD_AVAILABLE pf then (Some RuntimeError, m)
      else (case find_chip_by_platform pf of
              Inl e \<Rightarrow> (Some e, m)
            | Inr c \<Rightarrow>
                (case comprehension (line_offset_from_id c) BUTTONS of
                   Inl e \<Rightarrow> (Some e, m)
                 | Inr offs \<Rightarrow>
                     (let m1 = m\<lparr>offsets := Some offs\<rparr> in
                      case request_lines c ''inkypi-buttons'' (fromkeys offs input_settings) of
                        Inl e \<Rightarrow> (Some e, m1)
                      | Inr r \<Rightarrow>
                          (None, logged Info_gpio_initialized (m1\<lparr>request := Some r\<rparr>))))))"

definition cleanup_gpio :: "button_manager \<Rightarrow> button_manager" where
  "cleanup_gpio m =
     (case request m of
        None \<Rightarrow> m
      | Some r \<Rightarrow>
          (case release r of
             Inr u \<Rightarrow> m\<lparr>request := None\<rparr>
           | Inl e \<Rightarrow> logged Error_releasing_gpio m))"

subsection \<open>Starting and stopping\<close>

text \<open>
  \<^verbatim>\<open>start\<close> returns its boolean and the state. The thread it launches runs
  \<open>run\<close> below.
\<close>

definition start :: "platform \<Rightarrow> button_manager \<Rightarrow> bool \<times> button_manager" where
  "start pf m =
     (if \<not> enabled m then (False, logged Warning_disabled m)
      else if running m then (False, logged Warning_already_running m)
      else (case initialize_gpio pf m of
              (None, m1) \<Rightarrow>
                (True, logged Info_started (m1\<lparr>running := True, thread := Some Daemon_thread\<rparr>))
            | (Some e, m1) \<Rightarrow>
                (False, (logged Error_start_failed m1)\<lparr>enabled := False\<rparr>)))"

text \<open>
  \<^verbatim>\<open>stop\<close> in two parts: clearing the flag under the lock, then the join, the log
  line and the cleanup. The poll loop runs between the two.
\<close>

definition stop_request :: "button_manager \<Rightarrow> button_manager" where
  "stop_request m = m\<lparr>running := False\<rparr>"

definition stop_finish :: "button_manager \<Rightarrow> button_manager" where
  "stop_finish m =
     cleanup_gpio (case thread m of None \<Rightarrow> m | Some t \<Rightarrow> logged Info_stopped m)"

definition stop :: "button_manager \<Rightarrow> button_manager" where
  "stop m = stop_finish (stop_request m)"

subsection \<open>Dispatching one edge event\<close>

text \<open>The loop over the snapshot, with its try/except around each call.\<close>

fun call_handlers :: "behaviour \<Rightarrow> string \<Rightarrow> callback list \<Rightarrow> button_manager \<Rightarrow> button_manager" where
  "call_handlers beh label [] m = m"
| "call_handlers beh label (handler # rest) m =
     call_handlers beh label rest
       (case beh handler label of
          Returns \<Rightarrow> logged (Called handler label) m
        | Raises \<Rightarrow> logged (Error_calling_handler label) (logged (Called handler label) m))"

definition handle_button_event :: "behaviour \<Rightarrow> event \<Rightarrow> button_manager \<Rightarrow> button_manager" where
  "handle_button_event beh ev m =
     (case offsets m of
        None \<Rightarrow> m
      | Some offs \<Rightarrow>
          (case list_index offs (line_offset ev) of
             Inl e \<Rightarrow> logged Error_handling_event m
           | Inr index \<Rightarrow>
               (case list_getitem BUTTONS index of
                  Inl e \<Rightarrow> logged Error_handling_event m
                | Inr gpio_number \<Rightarrow>
                    (case list_getitem LABELS index of
                       Inl e \<Rightarrow> logged Error_handling_event m
                     | Inr label \<Rightarrow>
                         (let m1 = logged (Info_button_press gpio_number label) m in
                          case dict_getitem (handlers m1) label of
                            Inl e \<Rightarrow> logged Error_handling_event m1
                          | Inr snapshot \<Rightarrow> call_handlers beh label snapshot m1)))))"

subsection \<open>The poll loop\<close>

text \<open>
  What the primary context can do while the loop runs: register, unregister, and the
  first part of \<^verbatim>\<open>stop\<close>. An exception of \<^verbatim>\<open>register_handler\<close> is raised in the
  primary context and leaves the manager as it was.
\<close>

datatype primary_action =
    Register string callback
  | Unregister string callback
  | Request_stop

fun perform :: "primary_action \<Rightarrow> button_manager \<Rightarrow> button_manager" where
  "perform (Register button cb) m = snd (register_handler m button cb)"
| "perform (Unregister button cb) m = snd (unregister_handler m button cb)"
| "perform Request_stop m = stop_request m"

definition perform_all :: "primary_action list \<Rightarrow> button_manager \<Rightarrow> button_manager" where
  "perform_all acts m = fold perform acts m"

text \<open>
  An event of a batch, with the primary context's actions that precede the check of the
  running flag for it.
\<close>

type_synonym arrival = "primary_action list \<times> event"

fun for_events :: "behaviour \<Rightarrow> arrival list \<Rightarrow> button_manager \<Rightarrow> button_manager" where
  "for_events beh [] m = m"
| "for_events beh ((acts, ev) # rest) m =
     (let m0 = perform_all acts m in
      if \<not> running m0 then m0
      else for_events beh rest (handle_button_event beh ev m0))"

text \<open>
  One turn of the \<^verbatim>\<open>while\<close> loop: the primary context's actions before the check
  of the flag, and the outcomes of the reads the turn may make.
\<close>

record poll =
  before :: "primary_action list"
  read_edge_events_timeout :: "exn + arrival list"
  wait_edge_events :: "exn + bool"
  read_edge_events :: "exn + arrival list"

datatype loop_end = Loop_left | Loop_raised | Loop_waiting

text \<open>
  The loop runs for as long as the script of polls lasts; at its end a loop that has
  neither stopped nor raised is still waiting for events (\<open>Loop_waiting\<close>).
\<close>

fun poll_loop :: "behaviour \<Rightarrow> poll list \<Rightarrow> button_manager \<Rightarrow> loop_end \<times> button_manager" where
  "poll_loop beh [] m =
     (if \<not> running m then (Loop_left, m)
      else if request m = None then (Loop_left, m)
      else (Loop_waiting, m))"
| "poll_loop beh (p # ps) m =
     (let m0 = perform_all (before p) m in
      if \<not> running m0 then (Loop_left, m0)
      else (case request m0 of
              None \<Rightarrow> (Loop_left, m0)
            | Some r \<Rightarrow>
                (case read_edge_events_timeout p of
                   Inr events \<Rightarrow> poll_loop beh ps (for_events beh events m0)
                 | Inl e \<Rightarrow>
                     (if e = TypeError then
                        (if has_wait_edge_events r then
                           (case wait_edge_events p of
                              Inl e' \<Rightarrow> (Loop_raised, m0)
                            | Inr ready \<Rightarrow>
                                (if \<not> ready then poll_loop beh ps m0
                                 else (case read_edge_events p of
                                         Inl e' \<Rightarrow> (Loop_raised, m0)
                                       | Inr events \<Rightarrow>
                                           poll_loop beh ps (for_events beh events m0))))
                         else (case read_edge_events p of
                                 Inl e' \<Rightarrow> (Loop_raised, m0)
                               | Inr events \<Rightarrow> poll_loop beh ps (for_events beh events m0)))
                      else (Loop_raised, m0)))))"

text \<open>\<^verbatim>\<open>_run\<close>: the loop, its \<^verbatim>\<open>except\<close> and its \<^verbatim>\<open>finally\<close>.\<close>

definition run :: "behaviour \<Rightarrow> poll list \<Rightarrow> button_manager \<Rightarrow> loop_end \<times> button_manager" where
  "run beh script m =
     (case poll_loop beh script m of
        (Loop_waiting, m1) \<Rightarrow> (Loop_waiting, m1)
      | (Loop_left, m1) \<Rightarrow> (Loop_left, cleanup_gpio m1)
      | (Loop_raised, m1) \<Rightarrow>
          (Loop_raised, cleanup_gpio ((logged Error_monitoring_thread m1)\<lparr>running := False\<rparr>)))"

subsection \<open>The status route\<close>

datatype json = JBool bool | JString string | JList "string list"

definition button_status :: "button_manager option \<Rightarrow> (string \<times> json) list" where
  "button_status button_manager =
     (case button_manager of
        None \<Rightarrow> [(''enabled'', JBool False), (''message'', JString ''Button manager not available'')]
      | Some bm \<Rightarrow>
          [(''enabled'', JBool (enabled bm)),
           (''running'', JBool (running bm)),
           (''buttons'', JList LABELS)])"

subsection \<open>Histories of operations\<close>

datatype operation =
    Op_register string callback
  | Op_unregister string callback
  | Op_start platform
  | Op_stop
  | Op_run "poll list"
  | Op_dispatch event

fun exec :: "behaviour \<Rightarrow> operation \<Rightarrow> button_manager \<Rightarrow> button_manager" where
  "exec beh (Op_register button cb) m = snd (register_handler m button cb)"
| "exec beh (Op_unregister button cb) m = snd (unregister_handler m button cb)"
| "exec beh (Op_start pf) m = snd (start pf m)"
| "exec beh Op_stop m = stop m"
| "exec beh (Op_run script) m = snd (run beh script m)"
| "exec beh (Op_dispatch ev) m = handle_button_event beh ev m"

definition exec_all :: "behaviour \<Rightarrow> operation list \<Rightarrow> button_manager \<Rightarrow> button_manager" where
  "exec_all beh ops m = fold (exec beh) ops m"

text \<open>The callback invocations of a trace, in order.\<close>

fun invocations :: "obs list \<Rightarrow> (callback \<times> string) list" where
  "invocations [] = []"
| "invocations (Called cb label # xs) = (cb, label) # invocations xs"
| "invocations (x # xs) = invocations xs"

subsection \<open>Scripts in which the primary context does nothing\<close>

definition quiet_arrivals :: "exn + arrival list \<Rightarrow> bool" where
  "quiet_arrivals r = (case r of Inl e \<Rightarrow> True | Inr arrs \<Rightarrow> list_all (\<lambda>a. fst a = []) arrs)"

definition quiet_poll :: "poll \<Rightarrow> bool" where
  "quiet_poll p \<longleftrightarrow>
     before p = [] \<and> quiet_arrivals (read_edge_events_timeout p) \<and>
     quiet_arrivals (read_edge_events p)"

definition quiet :: "poll list \<Rightarrow> bool" where
  "quiet script = list_all quiet_poll script"

subsection \<open>Managers that differ in their log records only\<close>


subsection \<open>Inputs for the examples\<close>

definition working_chip :: chip where
  "working_chip =
     \<lparr>line_offset_from_id = (\<lambda>line. Inr line),
      request_lines = (\<lambda>consumer config. Inr \<lparr>release_raises = False, has_wait_edge_events = True\<rparr>)\<rparr>"

definition working_platform :: platform where
  "working_platform = \<lparr>GPIOD_AVAILABLE = True, find_chip_by_platform = Inr working_chip\<rparr>"

definition broken_platform :: platform where
  "broken_platform = \<lparr>GPIOD_AVAILABLE = True, find_chip_by_platform = Inl OtherError\<rparr>"

definition never_raises :: behaviour where
  "never_raises cb label = Returns"


text \<open>
  A manager with two callbacks registered for button A, started on a working platform;
  a press on a line; a turn of the loop whose read fails.
\<close>

definition ready_manager :: button_manager where
  "ready_manager =
     exec_all never_raises
       [Op_register ''A'' 1, Op_register ''A'' 2, Op_start working_platform] (init True True)"

definition press :: "int \<Rightarrow> arrival" where
  "press line = ([], \<lparr>line_offset = line\<rparr>)"

definition failing_read :: poll where
  "failing_read =
     \<lparr>before = [], read_edge_events_timeout = Inl OtherError,
      wait_edge_events = Inr False, read_edge_events = Inr []\<rparr>"

section \<open>Basic facts\<close>

lemma logged_simps:
  "enabled (logged x m) = enabled m"
  "thread (logged x m) = thread m"
  "running (logged x m) = running m"
  "handlers (logged x m) = handlers m"
  "request (logged x m) = request m"
  "offsets (logged x m) = offsets m"
  "trace (logged x m) = trace m @ [x]"
  by (simp_all add: logged_def)

lemma list_remove_first:
  "cb \<notin> set pre \<Longrightarrow> list_remove (pre @ cb # post) cb = Inr (pre @ post)"
  by (induction pre) auto

lemma list_remove_present: "cb \<in> set hs \<Longrightarrow> \<exists>hs'. list_remove hs cb = Inr hs'"
  by (induction hs) auto

lemma call_handlers_frame:
  "(call_handlers beh label hs m)\<lparr>trace := t\<rparr> = m\<lparr>trace := t\<rparr>"
  by (induction hs arbitrary: m) (auto simp: logged_def split: call_result.splits)

lemma handle_button_event_frame:
  "(handle_button_event beh ev m)\<lparr>trace := t\<rparr> = m\<lparr>trace := t\<rparr>"
  unfolding handle_button_event_def Let_def
  by (simp add: logged_def call_handlers_frame split: option.splits sum.splits)

lemma handle_button_event_fields:
  "enabled (handle_button_event beh ev m) = enabled m"
  "thread (handle_button_event beh ev m) = thread m"
  "running (handle_button_event beh ev m) = running m"
  "handlers (handle_button_event beh ev m) = handlers m"
  "request (handle_button_event beh ev m) = request m"
  "offsets (handle_button_event beh ev m) = offsets m"
  using handle_button_event_frame [where beh = beh and ev = ev and m = m and t = "[]", THEN arg_cong, of enabled]
    handle_button_event_frame [where beh = beh and ev = ev and m = m and t = "[]", THEN arg_cong, of thread]
    handle_button_event_frame [where beh = beh and ev = ev and m = m and t = "[]", THEN arg_cong, of running]
    handle_button_event_frame [where beh = beh and ev = ev and m = m and t = "[]", THEN arg_cong, of handlers]
    handle_button_event_frame [where beh = beh and ev = ev and m = m and t = "[]", THEN arg_cong, of request]
    handle_button_event_frame [where beh = beh and ev = ev and m = m and t = "[]", THEN arg_cong, of offsets]
  by simp_all

lemma perform_all_rule:
  assumes "\<And>a m. P m \<Longrightarrow> P (perform a m)" and "P m"
  shows "P (perform_all acts m)"
  using assms(2) unfolding perform_all_def
  by (induction acts arbitrary: m) (simp_all add: assms(1))

lemma for_events_rule:
  assumes "\<And>a m. P m \<Longrightarrow> P (perform a m)"
    and "\<And>ev m. P m \<Longrightarrow> P (handle_button_event beh ev m)"
    and "P m"
  shows "P (for_events beh arrs m)"
  using assms(3)
proof (induction arrs arbitrary: m)
  case Nil
  then show ?case by simp
next
  case (Cons a arrs)
  obtain acts ev where a: "a = (acts, ev)" by (cases a)
  have "P (perform_all acts m)"
    using assms(1) Cons.prems by (rule perform_all_rule)
  then show ?case
    using Cons.IH assms(2) by (simp add: a Let_def)
qed

lemma poll_loop_rule:
  assumes "\<And>a m. P m \<Longrightarrow> P (perform a m)"
    and "\<And>ev m. P m \<Longrightarrow> P (handle_button_event beh ev m)"
    and "P m"
  shows "P (snd (poll_loop beh script m))"
  using assms(3)
proof (induction script arbitrary: m)
  case Nil
  then show ?case by simp
next
  case (Cons p ps)
  have m0: "P (perform_all (before p) m)"
    using assms(1) Cons.prems by (rule perform_all_rule)
  have ev: "P (snd (poll_loop beh ps (for_events beh events (perform_all (before p) m))))" for events
    by (rule Cons.IH) (rule for_events_rule [OF assms(1,2) m0])
  have skip: "P (snd (poll_loop beh ps (perform_all (before p) m)))"
    by (rule Cons.IH) (rule m0)
  show ?case
    using m0 ev skip by (simp add: Let_def split: option.splits sum.splits)
qed

lemma cleanup_gpio_fields:
  "enabled (cleanup_gpio m) = enabled m"
  "thread (cleanup_gpio m) = thread m"
  "running (cleanup_gpio m) = running m"
  "handlers (cleanup_gpio m) = handlers m"
  "offsets (cleanup_gpio m) = offsets m"
  by (simp_all add: cleanup_gpio_def logged_simps split: option.splits sum.splits)

lemma run_rule:
  assumes "\<And>a m. P m \<Longrightarrow> P (perform a m)"
    and "\<And>ev m. P m \<Longrightarrow> P (handle_button_event beh ev m)"
    and "\<And>m. P m \<Longrightarrow> P (cleanup_gpio m)"
    and "\<And>m. P m \<Longrightarrow> P ((logged Error_monitoring_thread m)\<lparr>running := False\<rparr>)"
    and "P m"
  shows "P (snd (run beh script m))"
proof -
  have "P (snd (poll_loop beh script m))"
    using assms(1,2,5) by (rule poll_loop_rule)
  then show ?thesis
    using assms(3,4) by (cases "poll_loop beh script m") (auto simp: run_def split: loop_end.splits)
qed

lemma initialize_gpio_fields:
  "enabled (snd (initialize_gpio pf m)) = enabled m"
  "handlers (snd (initialize_gpio pf m)) = handlers m"
  by (simp_all add: initialize_gpio_def logged_simps Let_def split: sum.splits)

lemma stop_fields:
  "enabled (stop m) = enabled m"
  "handlers (stop m) = handlers m"
  "running (stop m) = False"
  by (simp_all add: stop_def stop_finish_def stop_request_def cleanup_gpio_fields logged_simps
      split: option.splits)

lemma start_handlers: "handlers (snd (start pf m)) = handlers m"
  by (cases "initialize_gpio pf m")
    (use initialize_gpio_fields(2) [of pf m] in
      \<open>auto simp: start_def logged_simps split: option.splits\<close>)

lemma start_enabled: "\<not> enabled m \<Longrightarrow> \<not> enabled (snd (start pf m))"
  by (simp add: start_def logged_simps)

lemma register_handler_dom: "dom (handlers (snd (register_handler m button cb))) = dom (handlers m)"
  by (auto simp: register_handler_def dict_getitem_def logged_simps split: option.splits)

lemma unregister_handler_dom:
  "dom (handlers (snd (unregister_handler m button cb))) = dom (handlers m)"
  by (auto simp: unregister_handler_def dict_getitem_def logged_simps split: option.splits sum.splits)

lemma register_handler_enabled: "enabled (snd (register_handler m button cb)) = enabled m"
  by (auto simp: register_handler_def dict_getitem_def logged_simps split: option.splits)

lemma unregister_handler_enabled: "enabled (snd (unregister_handler m button cb)) = enabled m"
  by (auto simp: unregister_handler_def dict_getitem_def logged_simps split: option.splits sum.splits)

lemma perform_dom: "dom (handlers (perform a m)) = dom (handlers m)"
  by (cases a) (simp_all add: register_handler_dom unregister_handler_dom stop_request_def)

lemma perform_enabled: "enabled (perform a m) = enabled m"
  by (cases a) (simp_all add: register_handler_enabled unregister_handler_enabled stop_request_def)

lemma run_dom: "dom (handlers (snd (run beh script m))) = dom (handlers m)"
  by (rule run_rule [where P = "\<lambda>x. dom (handlers x) = dom (handlers m)"])
    (simp_all add: perform_dom handle_button_event_fields cleanup_gpio_fields logged_simps)

lemma run_enabled: "enabled (snd (run beh script m)) = enabled m"
  by (rule run_rule [where P = "\<lambda>x. enabled x = enabled m"])
    (simp_all add: perform_enabled handle_button_event_fields cleanup_gpio_fields logged_simps)

lemma exec_dom: "dom (handlers (exec beh op m)) = dom (handlers m)"
  by (cases op)
    (simp_all add: register_handler_dom unregister_handler_dom start_handlers stop_fields run_dom
      handle_button_event_fields)

lemma exec_disabled: "\<not> enabled m \<Longrightarrow> \<not> enabled (exec beh op m)"
  by (cases op)
    (simp_all add: register_handler_enabled unregister_handler_enabled start_enabled stop_fields
      run_enabled handle_button_event_fields)

lemma exec_all_dom: "dom (handlers (exec_all beh ops m)) = dom (handlers m)"
  unfolding exec_all_def by (induction ops arbitrary: m) (simp_all add: exec_dom)

lemma exec_all_disabled: "\<not> enabled m \<Longrightarrow> \<not> enabled (exec_all beh ops m)"
  unfolding exec_all_def by (induction ops arbitrary: m) (simp_all add: exec_disabled)

lemma init_dom: "dom (handlers (init g e)) = set LABELS"
  by (auto simp: init_def LABELS_def dom_def)

lemma list_index_absent: "x \<notin> set xs \<Longrightarrow> list_index xs x = Inl ValueError"
  by (induction xs) auto

lemma list_index_distinct:
  "distinct xs \<Longrightarrow> i < length xs \<Longrightarrow> list_index xs (xs ! i) = Inr i"
proof (induction xs arbitrary: i)
  case Nil
  then show ?case by simp
next
  case (Cons x xs)
  show ?case
  proof (cases i)
    case 0
    then show ?thesis by simp
  next
    case (Suc j)
    with Cons.prems have "j < length xs" "distinct xs" "xs ! j \<noteq> x"
      by auto
    with Cons.IH [of j] Suc show ?thesis by auto
  qed
qed

lemma invocations_append: "invocations (xs @ ys) = invocations xs @ invocations ys"
  by (induction xs rule: invocations.induct) simp_all


lemma call_handlers_invocations:
  "invocations (trace (call_handlers beh label hs m)) =
     invocations (trace m) @ map (\<lambda>h. (h, label)) hs"
  by (induction hs arbitrary: m)
    (auto simp: logged_def invocations_append split: call_result.splits)

lemma handle_button_event_known:
  assumes "offsets m = Some offs" "distinct offs" "i < length offs" "i < length LABELS"
    and "handlers m (LABELS ! i) = Some hs" "line_offset ev = offs ! i"
  shows "handle_button_event beh ev m =
           call_handlers beh (LABELS ! i) hs (logged (Info_button_press (BUTTONS ! i) (LABELS ! i)) m)"
proof -
  have "i < length BUTTONS"
    using assms(4) by (simp add: BUTTONS_def LABELS_def)
  then show ?thesis
    using assms
    by (simp add: handle_button_event_def list_index_distinct list_getitem_def dict_getitem_def
        logged_simps Let_def)
qed

lemma perform_all_Nil: "perform_all [] m = m"
  by (simp add: perform_all_def)

lemma perform_offsets: "offsets (perform a m) = offsets m"
  by (cases a)
    (auto simp: register_handler_def unregister_handler_def dict_getitem_def stop_request_def
      logged_simps split: option.splits sum.splits)

lemma perform_all_offsets: "offsets (perform_all acts m) = offsets m"
  by (rule perform_all_rule [where P = "\<lambda>x. offsets x = offsets m"]) (simp_all add: perform_offsets)

lemma perform_not_running: "\<not> running m \<Longrightarrow> \<not> running (perform a m)"
  by (cases a)
    (auto simp: register_handler_def unregister_handler_def dict_getitem_def stop_request_def
      logged_simps split: option.splits sum.splits)

lemma perform_all_not_running: "\<not> running m \<Longrightarrow> \<not> running (perform_all acts m)"
  by (rule perform_all_rule [where P = "\<lambda>x. \<not> running x"]) (simp_all add: perform_not_running)

lemma perform_all_Cons: "perform_all (a # acts) m = perform_all acts (perform a m)"
  by (simp add: perform_all_def)

lemma request_stop_clears: "Request_stop \<in> set acts \<Longrightarrow> \<not> running (perform_all acts m)"
proof (induction acts arbitrary: m)
  case Nil
  then show ?case by simp
next
  case (Cons a acts)
  show ?case
  proof (cases "a = Request_stop")
    case True
    then have "\<not> running (perform a m)" by (simp add: stop_request_def)
    then show ?thesis
      unfolding perform_all_Cons by (rule perform_all_not_running)
  next
    case False
    with Cons.prems have "Request_stop \<in> set acts" by simp
    then show ?thesis
      unfolding perform_all_Cons by (rule Cons.IH)
  qed
qed

lemma perform_invocations: "invocations (trace (perform a m)) = invocations (trace m)"
  by (cases a)
    (auto simp: register_handler_def unregister_handler_def dict_getitem_def stop_request_def
      logged_simps invocations_append split: option.splits sum.splits)

lemma perform_all_invocations: "invocations (trace (perform_all acts m)) = invocations (trace m)"
  by (rule perform_all_rule [where P = "\<lambda>x. invocations (trace x) = invocations (trace m)"])
    (simp_all add: perform_invocations)

lemma ready_manager_fields:
  "enabled ready_manager"
  "running ready_manager"
  "offsets ready_manager = Some [5, 6, 16, 24]"
  "handlers ready_manager ''A'' = Some [1, 2]"
  "request ready_manager = Some \<lparr>release_raises = False, has_wait_edge_events = True\<rparr>"
  "trace ready_manager =
     [Info_registered ''A'', Info_registered ''A'', Info_gpio_initialized, Info_started]"
  by (simp_all add: ready_manager_def exec_all_def register_handler_def start_def
      initialize_gpio_def init_def LABELS_def BUTTONS_def working_platform_def working_chip_def
      dict_getitem_def logged_def Let_def)









lemma for_events_quiet:
  "list_all (\<lambda>a. fst a = []) arrs \<Longrightarrow> (for_events beh arrs m)\<lparr>trace := t\<rparr> = m\<lparr>trace := t\<rparr>"
proof (induction arrs arbitrary: m)
  case Nil
  show ?case by simp
next
  case (Cons a arrs)
  obtain ev where a: "a = ([], ev)"
    using Cons.prems by (cases a) simp
  have "(for_events beh arrs (handle_button_event beh ev m))\<lparr>trace := t\<rparr> =
          (handle_button_event beh ev m)\<lparr>trace := t\<rparr>"
    using Cons.prems by (intro Cons.IH) simp
  then show ?case
    by (simp add: a perform_all_Nil handle_button_event_frame)
qed

lemma poll_loop_quiet:
  "quiet script \<Longrightarrow> (snd (poll_loop beh script m))\<lparr>trace := t\<rparr> = m\<lparr>trace := t\<rparr>"
proof (induction script arbitrary: m)
  case Nil
  show ?case by simp
next
  case (Cons p ps)
  have b: "before p = []" and qs: "quiet ps"
    and q1: "quiet_arrivals (read_edge_events_timeout p)"
    and q2: "quiet_arrivals (read_edge_events p)"
    using Cons.prems by (simp_all add: quiet_def quiet_poll_def)
  have ev: "(snd (poll_loop beh ps (for_events beh events m)))\<lparr>trace := t\<rparr> = m\<lparr>trace := t\<rparr>"
    if "list_all (\<lambda>a. fst a = []) events" for events
    using Cons.IH [OF qs, where m = "for_events beh events m"] for_events_quiet [OF that, where beh = beh and m = m and t = t]
    by simp
  have skip: "(snd (poll_loop beh ps m))\<lparr>trace := t\<rparr> = m\<lparr>trace := t\<rparr>"
    using qs by (rule Cons.IH)
  show ?case
    using ev skip q1 q2
    by (simp add: Let_def b perform_all_Nil quiet_arrivals_def split: option.splits sum.splits)
qed

lemma cleanup_gpio_request:
  "request (cleanup_gpio m) =
     (case request m of None \<Rightarrow> None | Some r \<Rightarrow> if release_raises r then Some r else None)"
  by (simp add: cleanup_gpio_def release_def logged_simps split: option.splits)

lemma for_events_cut:
  "Request_stop \<in> set acts \<Longrightarrow>
     for_events beh (pre @ (acts, ev) # rest) m = for_events beh (pre @ [(acts, ev)]) m"
proof (induction pre arbitrary: m)
  case Nil
  then show ?case by (simp add: request_stop_clears)
next
  case (Cons a pre)
  obtain acts' ev' where a: "a = (acts', ev')" by (cases a)
  show ?case
    using Cons.IH [OF Cons.prems] by (simp add: a Let_def)
qed

lemma for_events_stopped_last:
  "Request_stop \<in> set acts \<Longrightarrow>
     invocations (trace (for_events beh (pre @ [(acts, ev)]) m)) =
     invocations (trace (for_events beh pre m))"
proof (induction pre arbitrary: m)
  case Nil
  then show ?case by (simp add: request_stop_clears perform_all_invocations)
next
  case (Cons a pre)
  obtain acts' ev' where a: "a = (acts', ev')" by (cases a)
  show ?case
    using Cons.IH [OF Cons.prems] by (simp add: a Let_def)
qed


section \<open>Registration and removal\<close>

text \<open>
  Claim C2. \<^verbatim>\<open>register_handler\<close> with a button outside \<open>LABELS\<close> raises ValueError
  (the spec's InvalidIdentity) and leaves the manager, hence every sequence of the
  registry, as it was. With a button of \<open>LABELS\<close>, in a registry whose keys are the
  labels, it returns normally and the registry is the old one with the callback appended
  to that button's sequence; the sequences of the other buttons are the old ones.
\<close>

theorem register_handler_identity:
  "(button \<notin> set LABELS \<longrightarrow> register_handler m button cb = (Some ValueError, m)) \<and>
   (button \<in> set LABELS \<longrightarrow> dom (handlers m) = set LABELS \<longrightarrow>
      (\<exists>hs. handlers m button = Some hs \<and>
            fst (register_handler m button cb) = None \<and>
            handlers (snd (register_handler m button cb)) = (handlers m)(button \<mapsto> hs @ [cb])))"
  by (auto simp: register_handler_def dict_getitem_def logged_simps split: option.splits)

theorem register_handler_identity_witness:
  "register_handler (init True True) ''E'' 7 = (Some ValueError, init True True) \<and>
   fst (register_handler (init True True) ''A'' 7) = None \<and>
   handlers (snd (register_handler (init True True) ''A'' 7)) ''A'' = Some [7] \<and>
   handlers (snd (register_handler (init True True) ''A'' 7)) ''B'' = Some []"
  using register_handler_identity [of "''E''" "init True True" 7]
        register_handler_identity [of "''A''" "init True True" 7]
  by (auto simp: LABELS_def init_def)

text \<open>
  Claim C8. \<^verbatim>\<open>unregister_handler\<close> never raises. When the callback occurs in the
  button's sequence, the sequence loses its first occurrence (the one with no equal
  element before it) and nothing else. When the button is not a key of the registry, or
  the callback is not in its sequence, the manager is left as it was.
\<close>

theorem unregister_handler_first_occurrence:
  "fst (unregister_handler m button cb) = None \<and>
   (\<forall>pre post. handlers m button = Some (pre @ cb # post) \<longrightarrow> cb \<notin> set pre \<longrightarrow>
      handlers (snd (unregister_handler m button cb)) = (handlers m)(button \<mapsto> pre @ post)) \<and>
   (handlers m button = None \<or> (\<exists>hs. handlers m button = Some hs \<and> cb \<notin> set hs) \<longrightarrow>
      snd (unregister_handler m button cb) = m)"
proof (intro conjI allI impI)
  show "fst (unregister_handler m button cb) = None"
    using list_remove_present [of cb]
    by (fastforce simp: unregister_handler_def dict_getitem_def split: option.splits sum.splits)
next
  fix pre post
  assume "handlers m button = Some (pre @ cb # post)" "cb \<notin> set pre"
  then show "handlers (snd (unregister_handler m button cb)) = (handlers m)(button \<mapsto> pre @ post)"
    by (simp add: unregister_handler_def dict_getitem_def list_remove_first logged_simps)
next
  assume "handlers m button = None \<or> (\<exists>hs. handlers m button = Some hs \<and> cb \<notin> set hs)"
  then show "snd (unregister_handler m button cb) = m"
    by (auto simp: unregister_handler_def)
qed

theorem unregister_handler_first_occurrence_witness:
  "fst (unregister_handler (exec_all never_raises
          [Op_register ''A'' 1, Op_register ''A'' 2, Op_register ''A'' 1] (init True True)) ''A'' 1) = None \<and>
   handlers (snd (unregister_handler (exec_all never_raises
          [Op_register ''A'' 1, Op_register ''A'' 2, Op_register ''A'' 1] (init True True)) ''A'' 1)) ''A''
     = Some [2, 1] \<and>
   snd (unregister_handler (init True True) ''Z'' 1) = init True True \<and>
   snd (unregister_handler (init True True) ''A'' 1) = init True True"
proof -
  let ?m = "exec_all never_raises
          [Op_register ''A'' 1, Op_register ''A'' 2, Op_register ''A'' 1] (init True True)"
  have h: "handlers ?m ''A'' = Some ([] @ 1 # [2, 1])"
    by (simp add: exec_all_def register_handler_def dict_getitem_def init_def LABELS_def logged_simps)
  have z: "handlers (init True True) ''Z'' = None"
    and a: "handlers (init True True) ''A'' = Some []"
    by (simp_all add: init_def LABELS_def)
  have "handlers (snd (unregister_handler ?m ''A'' 1)) = (handlers ?m)(''A'' \<mapsto> [] @ [2, 1])"
    by (rule unregister_handler_first_occurrence [of ?m "''A''" 1,
          THEN conjunct2, THEN conjunct1, rule_format, of "[]" "[2, 1]"])
      (simp_all only: h list.set empty_iff not_False_eq_True)
  then have r: "handlers (snd (unregister_handler ?m ''A'' 1)) ''A'' = Some [2, 1]"
    by (simp del: exec.simps)
  show ?thesis
    using r z a unregister_handler_first_occurrence [of ?m "''A''" 1]
      unregister_handler_first_occurrence [of "init True True" "''Z''" 1]
      unregister_handler_first_occurrence [of "init True True" "''A''" 1]
    by (simp del: exec.simps)
qed

section \<open>The key set of the registry\<close>

text \<open>
  Claim C10. The registry is built with exactly the labels of \<open>LABELS\<close> as its keys.
  Every operation (registration, removal, start, stop, the run of the poll thread, the
  dispatch of an event) leaves the key set of any manager as it finds it, so after any
  history of operations on a new manager the keys are still the labels.
\<close>

theorem registry_keys_fixed:
  "dom (handlers (init g e)) = set LABELS \<and>
   dom (handlers (exec beh op m)) = dom (handlers m) \<and>
   dom (handlers (exec_all beh ops (init g e))) = set LABELS"
  by (simp add: init_dom exec_dom exec_all_dom)

theorem registry_keys_fixed_witness:
  "dom (handlers (exec_all never_raises
          [Op_register ''A'' 1, Op_register ''E'' 1, Op_start working_platform, Op_stop]
          (init True True))) = set LABELS"
  using registry_keys_fixed [of True True] by blast

section \<open>Starting and stopping\<close>

text \<open>
  Claim C3. When \<^verbatim>\<open>start\<close> reaches the acquisition of the hardware (the manager is
  enabled and not running) and the acquisition raises, \<^verbatim>\<open>start\<close> returns False and
  leaves the manager disabled. After any later history of operations the manager is still
  disabled, and a \<^verbatim>\<open>start\<close> then returns False having done nothing but log the
  warning: no acquisition is attempted, whatever the platform would answer.
\<close>

theorem failed_acquisition_disables:
  assumes "enabled m" and "\<not> running m" and "fst (initialize_gpio pf m) \<noteq> None"
  shows "fst (start pf m) = False \<and> \<not> enabled (snd (start pf m)) \<and>
         (\<forall>beh ops pf'.
            \<not> enabled (exec_all beh ops (snd (start pf m))) \<and>
            start pf' (exec_all beh ops (snd (start pf m))) =
              (False, logged Warning_disabled (exec_all beh ops (snd (start pf m)))))"
proof -
  have 1: "fst (start pf m) = False" and 2: "\<not> enabled (snd (start pf m))"
    using assms by (cases "initialize_gpio pf m"; auto simp: start_def)+
  have 3: "\<not> enabled (exec_all beh ops (snd (start pf m)))" for beh ops
    using 2 by (rule exec_all_disabled)
  have "start pf' (exec_all beh ops (snd (start pf m))) =
          (False, logged Warning_disabled (exec_all beh ops (snd (start pf m))))" for beh ops pf'
    using 3 [of beh ops] by (simp add: start_def)
  with 1 2 3 show ?thesis by blast
qed

theorem failed_acquisition_disables_witness:
  "fst (start broken_platform (init True True)) = False \<and>
   \<not> enabled (snd (start broken_platform (init True True))) \<and>
   start working_platform
     (exec_all never_raises [Op_stop, Op_start working_platform]
        (snd (start broken_platform (init True True)))) =
     (False, logged Warning_disabled
        (exec_all never_raises [Op_stop, Op_start working_platform]
           (snd (start broken_platform (init True True)))))"
proof -
  have e: "enabled (init True True)" and r: "\<not> running (init True True)"
    by (simp_all add: init_def)
  have f: "fst (initialize_gpio broken_platform (init True True)) \<noteq> None"
    by (simp add: initialize_gpio_def broken_platform_def)
  show ?thesis
    using failed_acquisition_disables [OF e r f] by blast
qed

text \<open>
  Claim C6. When \<^verbatim>\<open>start\<close> returns True the status route reports running true.
  After \<^verbatim>\<open>stop\<close> it reports running false, from any state, so also after a second
  \<^verbatim>\<open>stop\<close>, which changes nothing but the log; on a new manager \<^verbatim>\<open>stop\<close> changes
  nothing at all. \<^verbatim>\<open>stop\<close> has no path that raises: the only call that can,
  \<^verbatim>\<open>release\<close>, is caught in \<^verbatim>\<open>_cleanup_gpio\<close>.
\<close>

theorem running_status:
  "(fst (start pf m) \<longrightarrow>
      map_of (button_status (Some (snd (start pf m)))) ''running'' = Some (JBool True)) \<and>
   map_of (button_status (Some (stop m))) ''running'' = Some (JBool False) \<and>
   map_of (button_status (Some (stop (stop m)))) ''running'' = Some (JBool False) \<and>
   (\<forall>t. (stop (stop m))\<lparr>trace := t\<rparr> = (stop m)\<lparr>trace := t\<rparr>) \<and>
   stop (init g e) = init g e"
proof (intro conjI impI allI)
  assume "fst (start pf m)"
  then show "map_of (button_status (Some (snd (start pf m)))) ''running'' = Some (JBool True)"
    by (cases "initialize_gpio pf m")
      (auto simp: start_def button_status_def logged_simps split: if_splits option.splits)
next
  show "map_of (button_status (Some (stop m))) ''running'' = Some (JBool False)"
    "map_of (button_status (Some (stop (stop m)))) ''running'' = Some (JBool False)"
    by (simp_all add: button_status_def stop_fields)
next
  fix t
  show "(stop (stop m))\<lparr>trace := t\<rparr> = (stop m)\<lparr>trace := t\<rparr>"
    by (auto simp: stop_def stop_finish_def stop_request_def cleanup_gpio_def logged_def
        split: option.splits sum.splits)
next
  show "stop (init g e) = init g e"
    by (simp add: stop_def stop_finish_def stop_request_def cleanup_gpio_def init_def)
qed

theorem running_status_witness:
  "fst (start working_platform (init True True)) \<and>
   map_of (button_status (Some (snd (start working_platform (init True True))))) ''running''
     = Some (JBool True) \<and>
   map_of (button_status (Some (stop (snd (start working_platform (init True True)))))) ''running''
     = Some (JBool False)"
proof -
  have s: "fst (start working_platform (init True True))"
    by (simp add: start_def init_def initialize_gpio_def working_platform_def working_chip_def
        BUTTONS_def Let_def)
  show ?thesis
    using s running_status [of working_platform "init True True"]
      running_status [of working_platform "snd (start working_platform (init True True))"]
    by blast
qed

section \<open>Dispatch\<close>

text \<open>
  Claim C1. The line offset table has no repeated entry (distinct lines have distinct
  offsets), and \<^verbatim>\<open>index\<close> finds the first position of an offset. An event whose
  offset is the \<open>i\<close>-th entry is resolved to the \<open>i\<close>-th label, and the callbacks invoked
  by the pass are those of that label's sequence, each as often as it occurs there and in
  the order of registration, with the label as argument. A batch of such events, with the
  manager running and the primary context idle, invokes the whole sequence once per
  event: two events with callbacks f and g registered give f, g, f, g.
\<close>

theorem dispatch_invokes_registered:
  assumes "offsets m = Some offs" and "distinct offs" and "i < length offs"
    and "i < length LABELS" and "handlers m (LABELS ! i) = Some hs" and "running m"
    and "\<forall>ev \<in> set evs. line_offset ev = offs ! i"
  shows "(\<forall>ev. line_offset ev = offs ! i \<longrightarrow>
            invocations (trace (handle_button_event beh ev m)) =
              invocations (trace m) @ map (\<lambda>h. (h, LABELS ! i)) hs) \<and>
         invocations (trace (for_events beh (map (\<lambda>ev. ([], ev)) evs) m)) =
           invocations (trace m) @ concat (replicate (length evs) (map (\<lambda>h. (h, LABELS ! i)) hs))"
proof -
  have one: "invocations (trace (handle_button_event beh ev x)) =
               invocations (trace x) @ map (\<lambda>h. (h, LABELS ! i)) hs"
    if "offsets x = Some offs" "handlers x (LABELS ! i) = Some hs" "line_offset ev = offs ! i"
    for ev x
    using handle_button_event_known [OF that(1) assms(2,3,4) that(2,3), of beh]
    by (simp add: call_handlers_invocations logged_simps invocations_append)
  have batch: "invocations (trace (for_events beh (map (\<lambda>ev. ([], ev)) evs) x)) =
          invocations (trace x) @ concat (replicate (length evs) (map (\<lambda>h. (h, LABELS ! i)) hs))"
    if "offsets x = Some offs" "handlers x (LABELS ! i) = Some hs" "running x"
      "\<forall>ev \<in> set evs. line_offset ev = offs ! i"
    for x
    using that
  proof (induction evs arbitrary: x)
    case Nil
    then show ?case by simp
  next
    case (Cons ev evs)
    let ?x' = "handle_button_event beh ev x"
    have "invocations (trace (for_events beh (map (\<lambda>ev. ([], ev)) evs) ?x')) =
            invocations (trace ?x') @
            concat (replicate (length evs) (map (\<lambda>h. (h, LABELS ! i)) hs))"
      using Cons.prems by (intro Cons.IH) (simp_all add: handle_button_event_fields)
    moreover have "invocations (trace ?x') = invocations (trace x) @ map (\<lambda>h. (h, LABELS ! i)) hs"
      using Cons.prems by (intro one) simp_all
    ultimately show ?case
      using Cons.prems(3) by (simp add: perform_all_Nil)
  qed
  show ?thesis
    using one [OF assms(1,5)] batch [OF assms(1,5,6,7)] by blast
qed

theorem dispatch_invokes_registered_witness:
  "invocations (trace (for_events never_raises [press 5, press 5] ready_manager)) =
     [(1, ''A''), (2, ''A''), (1, ''A''), (2, ''A'')]"
proof -
  have "invocations (trace (for_events never_raises
          (map (\<lambda>ev. ([], ev)) [\<lparr>line_offset = 5\<rparr>, \<lparr>line_offset = 5\<rparr>]) ready_manager)) =
        invocations (trace ready_manager) @
        concat (replicate (length [\<lparr>line_offset = 5\<rparr>, \<lparr>line_offset = 5 :: int\<rparr>])
          (map (\<lambda>h. (h, LABELS ! 0)) [1, 2]))"
    by (rule dispatch_invokes_registered [of ready_manager "[5, 6, 16, 24]" 0 "[1, 2]"
          "[\<lparr>line_offset = 5\<rparr>, \<lparr>line_offset = 5\<rparr>]" never_raises, THEN conjunct2])
      (simp_all add: ready_manager_fields LABELS_def)
  then show ?thesis
    by (simp add: press_def ready_manager_fields LABELS_def numeral_2_eq_2)
qed

text \<open>
  Claim C4. An event whose offset is not in the table makes \<^verbatim>\<open>index\<close> raise; the
  exception is caught and logged, no callback is invoked, and nothing but the log
  changes. The loop over the batch goes on with the remaining events, and a turn of the
  poll loop that read this event alone is followed by the next turn, from a manager that
  differs by the log record only, so that a later event with a known offset is dispatched
  as claim C1 says.
\<close>

theorem unknown_offset_skipped:
  assumes "offsets m = Some offs" and "line_offset ev \<notin> set offs"
  shows "handle_button_event beh ev m = logged Error_handling_event m \<and>
         invocations (trace (handle_button_event beh ev m)) = invocations (trace m) \<and>
         (\<forall>acts rest. running (perform_all acts m) \<longrightarrow>
            for_events beh ((acts, ev) # rest) m =
              for_events beh rest (logged Error_handling_event (perform_all acts m))) \<and>
         (\<forall>p ps r. before p = [] \<longrightarrow> read_edge_events_timeout p = Inr [([], ev)] \<longrightarrow>
            running m \<longrightarrow> request m = Some r \<longrightarrow>
            poll_loop beh (p # ps) m = poll_loop beh ps (logged Error_handling_event m))"
proof -
  have skip: "handle_button_event beh ev x = logged Error_handling_event x"
    if "offsets x = Some offs" for x
    using that assms(2) by (simp add: handle_button_event_def list_index_absent)
  have 1: "handle_button_event beh ev m = logged Error_handling_event m"
    using assms(1) by (rule skip)
  have 2: "invocations (trace (handle_button_event beh ev m)) = invocations (trace m)"
    by (simp add: 1 logged_simps invocations_append)
  have 3: "for_events beh ((acts, ev) # rest) m =
             for_events beh rest (logged Error_handling_event (perform_all acts m))"
    if "running (perform_all acts m)" for acts rest
    using that skip [of "perform_all acts m"] assms(1)
    by (simp add: perform_all_offsets)
  have 4: "poll_loop beh (p # ps) m = poll_loop beh ps (logged Error_handling_event m)"
    if "before p = []" "read_edge_events_timeout p = Inr [([], ev)]" "running m" "request m = Some r"
    for p ps r
    using that 1 by (simp add: perform_all_Nil)
  show ?thesis
    using 1 2 3 4 by blast
qed

theorem unknown_offset_skipped_witness:
  "handle_button_event never_raises \<lparr>line_offset = 99\<rparr> ready_manager =
     logged Error_handling_event ready_manager \<and>
   invocations (trace (for_events never_raises [press 99, press 5] ready_manager)) =
     [(1, ''A''), (2, ''A'')]"
proof -
  note u = unknown_offset_skipped [of ready_manager "[5, 6, 16, 24]" "\<lparr>line_offset = 99\<rparr>"
      never_raises, OF ready_manager_fields(3)]
  have n: "line_offset \<lparr>line_offset = 99\<rparr> \<notin> set [5, 6, 16, 24 :: int]"
    by simp
  have r: "running (perform_all [] ready_manager)"
    by (simp add: perform_all_def ready_manager_fields)
  have 1: "handle_button_event never_raises \<lparr>line_offset = 99\<rparr> ready_manager =
             logged Error_handling_event ready_manager"
    using u [OF n] by (rule conjunct1)
  have "for_events never_raises (([], \<lparr>line_offset = 99\<rparr>) # [press 5]) ready_manager =
          for_events never_raises [press 5]
            (logged Error_handling_event (perform_all [] ready_manager))"
    using u [OF n, THEN conjunct2, THEN conjunct2, THEN conjunct1, rule_format, OF r] .
  then have "invocations (trace (for_events never_raises [press 99, press 5] ready_manager)) =
     [(1, ''A''), (2, ''A'')]"
    by (simp add: press_def perform_all_def logged_simps ready_manager_fields
        handle_button_event_def list_getitem_def dict_getitem_def BUTTONS_def LABELS_def
        never_raises_def invocations_append Let_def)
  with 1 show ?thesis by simp
qed



section \<open>The poll loop and the running flag\<close>

text \<open>
  Claim C7. The flag is read before each event of a batch. When it is found cleared,
  the loop over the batch returns the manager as it is at that check: neither that event
  nor a later one is dispatched. A stop requested by the primary context before the check
  of some event of the batch clears the flag, so the batch is cut there, whatever
  follows, and the callbacks invoked are those of the events before it. (The check and
  the dispatch of one event are one step of the model.)
\<close>

theorem batch_abandoned_on_stop:
  "(\<not> running (perform_all acts m) \<longrightarrow>
      for_events beh ((acts, ev) # rest) m = perform_all acts m) \<and>
   (Request_stop \<in> set acts \<longrightarrow>
      \<not> running (perform_all acts m) \<and>
      for_events beh (pre @ (acts, ev) # rest) m = for_events beh (pre @ [(acts, ev)]) m \<and>
      invocations (trace (for_events beh (pre @ (acts, ev) # rest) m)) =
        invocations (trace (for_events beh pre m)))"
proof (intro conjI impI)
  assume "\<not> running (perform_all acts m)"
  then show "for_events beh ((acts, ev) # rest) m = perform_all acts m"
    by simp
next
  assume s: "Request_stop \<in> set acts"
  then show "\<not> running (perform_all acts m)"
    by (rule request_stop_clears)
  show c: "for_events beh (pre @ (acts, ev) # rest) m = for_events beh (pre @ [(acts, ev)]) m"
    using s by (rule for_events_cut)
  show "invocations (trace (for_events beh (pre @ (acts, ev) # rest) m)) =
        invocations (trace (for_events beh pre m))"
    unfolding c using s by (rule for_events_stopped_last)
qed

theorem batch_abandoned_on_stop_witness:
  "invocations (trace (for_events never_raises
       [press 5, ([Request_stop], \<lparr>line_offset = 5\<rparr>), press 5] ready_manager)) =
     [(1, ''A''), (2, ''A'')]"
proof -
  have s: "Request_stop \<in> set [Request_stop]"
    by simp
  have "invocations (trace (for_events never_raises
          ([press 5] @ ([Request_stop], \<lparr>line_offset = 5\<rparr>) # [press 5]) ready_manager)) =
        invocations (trace (for_events never_raises [press 5] ready_manager))"
    by (rule batch_abandoned_on_stop [of "[Request_stop]" ready_manager never_raises
          "\<lparr>line_offset = 5\<rparr>" "[press 5]" "[press 5]",
          THEN conjunct2, rule_format, OF s, THEN conjunct2, THEN conjunct2])
  then have l: "invocations (trace (for_events never_raises
          [press 5, ([Request_stop], \<lparr>line_offset = 5\<rparr>), press 5] ready_manager)) =
        invocations (trace (for_events never_raises [press 5] ready_manager))"
    by (simp only: append_Cons append_Nil)
  have r: "invocations (trace (for_events never_raises [press 5] ready_manager)) =
             [(1, ''A''), (2, ''A'')]"
    by (simp add: press_def perform_all_def logged_simps ready_manager_fields
        handle_button_event_def list_getitem_def dict_getitem_def BUTTONS_def LABELS_def
        never_raises_def invocations_append Let_def)
  show ?thesis
    by (rule trans [OF l r])
qed

text \<open>
  Claim C9 says that the poll context never writes the running flag or the session
  handle. It does: \<^verbatim>\<open>_run\<close> clears the flag in its \<^verbatim>\<open>except\<close> clause and
  releases the session and sets the handle to None in its \<^verbatim>\<open>finally\<close> clause. With
  the primary context idle, a read that fails leaves the flag cleared and the handle
  empty.
\<close>

theorem poll_context_read_only_counterexample:
  "running ready_manager \<and>
   \<not> running (snd (run never_raises [failing_read] ready_manager)) \<and>
   request ready_manager \<noteq> None \<and>
   request (snd (run never_raises [failing_read] ready_manager)) = None"
  by (simp add: run_def failing_read_def perform_all_def ready_manager_fields Let_def
      cleanup_gpio_def release_def logged_simps)

text \<open>
  Claim C9, amended. While the loop turns (waiting for events and dispatching them) the
  poll context only reads the flag and the handle: with the primary context idle both are
  after the loop what they were before. When the loop is left, the poll context itself
  runs \<^verbatim>\<open>_cleanup_gpio\<close>, which empties the handle unless the release raises, and
  when an exception has escaped the loop it also clears the flag. A loop still waiting
  for events has written neither.
\<close>

theorem poll_context_writes:
  assumes "quiet script"
  shows "running (snd (poll_loop beh script m)) = running m \<and>
         request (snd (poll_loop beh script m)) = request m \<and>
         (case fst (run beh script m) of
            Loop_waiting \<Rightarrow>
              running (snd (run beh script m)) = running m \<and>
              request (snd (run beh script m)) = request m
          | Loop_left \<Rightarrow>
              running (snd (run beh script m)) = running m \<and>
              request (snd (run beh script m)) = request (cleanup_gpio m)
          | Loop_raised \<Rightarrow>
              running (snd (run beh script m)) = False \<and>
              request (snd (run beh script m)) = request (cleanup_gpio m)) \<and>
         request (cleanup_gpio m) =
           (case request m of None \<Rightarrow> None
            | Some r \<Rightarrow> if release_raises r then Some r else None)"
proof -
  obtain e x where a: "poll_loop beh script m = (e, x)"
    by (cases "poll_loop beh script m")
  have "x\<lparr>trace := []\<rparr> = m\<lparr>trace := []\<rparr>"
    using poll_loop_quiet [OF assms, where beh = beh and m = m and t = "[]"] by (simp add: a)
  then have r: "running x = running m" and q: "request x = request m"
    by (auto dest: arg_cong [where f = running] arg_cong [where f = request])
  show ?thesis
    by (cases e)
      (simp_all add: a r q run_def cleanup_gpio_fields cleanup_gpio_request logged_simps)
qed

theorem poll_context_writes_witness:
  "quiet [failing_read] \<and>
   running (snd (poll_loop never_raises [failing_read] ready_manager)) \<and>
   request (snd (poll_loop never_raises [failing_read] ready_manager)) = request ready_manager \<and>
   fst (run never_raises [failing_read] ready_manager) = Loop_raised \<and>
   running (snd (run never_raises [failing_read] ready_manager)) = False \<and>
   request (snd (run never_raises [failing_read] ready_manager)) = None"
proof -
  have q: "quiet [failing_read]"
    by (simp add: quiet_def quiet_poll_def quiet_arrivals_def failing_read_def)
  have f: "fst (run never_raises [failing_read] ready_manager) = Loop_raised"
    by (simp add: run_def failing_read_def perform_all_def ready_manager_fields Let_def)
  show ?thesis
    using q f poll_context_writes [OF q, of never_raises ready_manager]
    by (simp add: ready_manager_fields)
qed

end
